theory Spec2Isabelle
  imports Main "HOL-Library.Sublist" "HOL-Library.AList"
begin

section \<open>Queries and operations on lines of text\<close>

text \<open>
  Lines are Python 2 byte strings, modelled as \<^typ>\<open>string\<close>. \<^verbatim>\<open>str.strip()\<close>
  without argument removes leading and trailing ASCII whitespace: space, tab, line feed,
  vertical tab, form feed and carriage return.
\<close>

definition isspace :: "char \<Rightarrow> bool" where
  "isspace c = (c \<in> set [CHR '' '', CHR 0x09, CHR 0x0A, CHR 0x0B, CHR 0x0C, CHR 0x0D])"

definition strip :: "string \<Rightarrow> string" where
  "strip s = rev (dropWhile isspace (rev (dropWhile isspace s)))"

text \<open>\<^verbatim>\<open>def isBlank(s): return (len(s.strip()) == 0)\<close>\<close>

definition isBlank :: "string \<Rightarrow> bool" where
  "isBlank s = (length (strip s) = 0)"

definition textPrefix :: string where
  "textPrefix = ''/// ''"

text \<open>\<^verbatim>\<open>def isText(s): return s.startswith(textPrefix) or (s.strip() == textPrefix.strip())\<close>\<close>

definition isText :: "string \<Rightarrow> bool" where
  "isText s = (prefix textPrefix s \<or> strip s = strip textPrefix)"

text \<open>
  \<^verbatim>\<open>def stripTextPrefix(x): return s[len(textPrefix):]\<close>
  The body reads the module-level variable \<^verbatim>\<open>s\<close> (the current line of the enclosing
  top-level loop), not its parameter \<^verbatim>\<open>x\<close>; the first argument below is that global.
  A Python slice past the end of the string is the empty string, as \<^const>\<open>drop\<close> is.
\<close>

definition stripTextPrefix :: "string \<Rightarrow> string \<Rightarrow> string" where
  "stripTextPrefix s x = drop (length textPrefix) s"

definition isCode :: "string \<Rightarrow> bool" where
  "isCode s = (\<not> isText s)"

text \<open>
  \<^verbatim>\<open>stripBlankLines(xs)\<close> pops blank lines from the front while there are any, then from
  the back.
\<close>

definition stripBlankLines :: "string list \<Rightarrow> string list" where
  "stripBlankLines xs = rev (dropWhile isBlank (rev (dropWhile isBlank xs)))"

section \<open>Splitting the program output into output blocks\<close>

text \<open>
  The dictionary \<^verbatim>\<open>outputBlocks\<close> is an association list; the assignment
  \<^verbatim>\<open>outputBlocks[k] = v\<close> is \<^const>\<open>AList.update\<close>, which replaces the value of a key that
  is present and adds the key otherwise. A line is a delimiter when its stripped form
  starts with \<^verbatim>\<open># [\<close> and ends with \<^verbatim>\<open>] #\<close>; the key it opens is \<^verbatim>\<open>s[1:-1].strip()\<close>, taken
  from the line itself: \<^verbatim>\<open>s[1:-1]\<close> drops the first and the last character (and is empty for
  strings shorter than two characters).
\<close>

record parser_state =
  outputBlocks :: "(string \<times> string list) list"
  blockKey :: string
  blockLines :: "string list"

definition isDelimiter :: "string \<Rightarrow> bool" where
  "isDelimiter s = (let stripped_s = strip s in
     prefix ''# ['' stripped_s \<and> suffix ''] #'' stripped_s)"

definition delimiterKey :: "string \<Rightarrow> string" where
  "delimiterKey s = strip (butlast (tl s))"

definition flush :: "parser_state \<Rightarrow> (string \<times> string list) list" where
  "flush st = (if blockKey st \<noteq> []
     then AList.update (blockKey st) (stripBlankLines (blockLines st)) (outputBlocks st)
     else outputBlocks st)"

definition parse_line :: "parser_state \<Rightarrow> string \<Rightarrow> parser_state" where
  "parse_line st s =
     (if isDelimiter s
      then \<lparr>outputBlocks = flush st, blockKey = delimiterKey s, blockLines = []\<rparr>
      else st\<lparr>blockLines := blockLines st @ [s]\<rparr>)"

definition parser_init :: parser_state where
  "parser_init = \<lparr>outputBlocks = [], blockKey = [], blockLines = []\<rparr>"

definition parse_output :: "string list \<Rightarrow> (string \<times> string list) list" where
  "parse_output programOutputLines = flush (foldl parse_line parser_init programOutputLines)"

section \<open>Extending text areas to adjacent blank lines\<close>

text \<open>
  \<^verbatim>\<open>extendText(i, previousLineWasText)\<close> reads and possibly overwrites \<^verbatim>\<open>src[i]\<close>; the
  array is passed and returned. Both loops call it with an index below \<^verbatim>\<open>len(src)\<close>.
\<close>

definition extendText :: "nat \<Rightarrow> bool \<Rightarrow> string list \<Rightarrow> string list \<times> bool" where
  "extendText i previousLineWasText src =
     (let s = src ! i in
      if isBlank s \<and> previousLineWasText then (src[i := textPrefix], True)
      else (src, isText s))"

definition sweep :: "nat list \<Rightarrow> string list \<times> bool \<Rightarrow> string list \<times> bool" where
  "sweep is = fold (\<lambda>i (src, prevLineWasText). extendText i prevLineWasText src) is"

text \<open>
  The forward loop starts with \<^verbatim>\<open>prevLineWasText = True\<close>. Before the backward loop the
  source assigns \<^verbatim>\<open>previousLineWasText = True\<close>, a different variable that no loop reads,
  so the backward loop starts with the value of \<^verbatim>\<open>prevLineWasText\<close> that the forward loop
  left.
\<close>

definition extend_src :: "string list \<Rightarrow> string list" where
  "extend_src sourceLines =
     (let N = length sourceLines;
          forward = sweep [0..<N] (sourceLines, True);
          backward = sweep (rev [0..<N]) forward
      in fst backward)"

section \<open>Output of text and code\<close>

definition codeBegin :: string where
  "codeBegin = ''```c++''"

definition codeEnd :: string where
  "codeEnd = ''```''"

text \<open>
  Every call of \<^verbatim>\<open>outputLine\<close> appends one line to the output file. The model records
  from which call a line comes: the two fence markers, a source line quoted as code, or a
  line written by \<^verbatim>\<open>outputText\<close>. \<open>render\<close> gives the string that is written.
\<close>

datatype out_line = Fence_open | Fence_close | Code_line string | Text_line string

fun render :: "out_line \<Rightarrow> string" where
  "render Fence_open = codeBegin"
| "render Fence_close = codeEnd"
| "render (Code_line s) = s"
| "render (Text_line s) = s"

definition outputText :: "(string \<times> string list) list \<Rightarrow> string \<Rightarrow> string list" where
  "outputText tbl s =
     (let ss = strip s in
      case map_of tbl ss of
        Some b \<Rightarrow> [''>'' @ ss @ '':'', ''> ```''] @ map (\<lambda>x. ''> '' @ x) b @ [''> ```'']
      | None \<Rightarrow> [s])"

definition isBeginHide :: "string \<Rightarrow> bool" where
  "isBeginHide s = (strip s = ''MD_BEGIN_HIDE'')"

definition isEndHide :: "string \<Rightarrow> bool" where
  "isEndHide s = (strip s = ''MD_END_HIDE'')"

text \<open>
  The two string-valued variables of the main loop. \<^verbatim>\<open>savedOutputting\<close> starts as the
  empty string (\<open>Unset\<close>); the last branch of the loop is a plain \<^verbatim>\<open>else\<close>, taken for every
  value other than \<^verbatim>\<open>"hidden"\<close> and \<^verbatim>\<open>"text"\<close>.
\<close>

datatype outputting = Unset | Text | Code | Hidden

record transducer_state =
  isOutputting :: outputting
  savedOutputting :: outputting

definition transducer_init :: transducer_state where
  "transducer_init = \<lparr>isOutputting = Text, savedOutputting = Unset\<rparr>"

definition step ::
  "(string \<times> string list) list \<Rightarrow> transducer_state \<Rightarrow> string \<Rightarrow> transducer_state \<times> out_line list"
where
  "step tbl st s =
     (if isOutputting st = Hidden then
        (if isEndHide s then (st\<lparr>isOutputting := savedOutputting st\<rparr>, []) else (st, []))
      else if isOutputting st = Text then
        (if isBeginHide s then
           (\<lparr>isOutputting = Hidden, savedOutputting = isOutputting st\<rparr>, [])
         else if isText s then
           (st, map Text_line (outputText tbl (stripTextPrefix s s)))
         else
           (st\<lparr>isOutputting := Code\<rparr>, [Fence_open, Code_line s]))
      else
        (if isBeginHide s then
           (\<lparr>isOutputting = Hidden, savedOutputting = isOutputting st\<rparr>, [])
         else if isCode s then
           (st, [Code_line s])
         else
           (st\<lparr>isOutputting := Text\<rparr>,
            Fence_close # map Text_line (outputText tbl (stripTextPrefix s s)))))"

fun run ::
  "(string \<times> string list) list \<Rightarrow> transducer_state \<Rightarrow> string list \<Rightarrow> transducer_state \<times> out_line list"
where
  "run tbl st [] = (st, [])"
| "run tbl st (s # src) =
     (let (st1, out1) = step tbl st s;
          (st2, out2) = run tbl st1 src
      in (st2, out1 @ out2))"

definition transduce :: "(string \<times> string list) list \<Rightarrow> string list \<Rightarrow> out_line list" where
  "transduce tbl src =
     (let (st, out) = run tbl transducer_init src
      in out @ (if isOutputting st = Code then [Fence_close] else []))"

text \<open>
  The whole program up to the two trailer lines (an empty line and the provenance line
  with the wall-clock time), which are outside the model.
\<close>

definition emdeer :: "string list \<Rightarrow> string list \<Rightarrow> out_line list" where
  "emdeer programOutputLines sourceLines =
     transduce (parse_output programOutputLines) (extend_src sourceLines)"

section \<open>The older variant of the program (\<^verbatim>\<open>docs/tutorial/emdeer.py\<close>)\<close>

text \<open>
  The tutorial's copy of the program has no hide directive, recognises text lines by the
  prefix alone, writes no key line before a substituted block and delimits output blocks
  by lines that start with \<^verbatim>\<open>@OUTPUT\<close>: the key is the line up to its first colon
  (\<^verbatim>\<open>s.split(":")[0]\<close>), every line is appended to the block that is open after it was
  inspected, the delimiter line included, and the accumulator is cleared only when a
  block is flushed.
\<close>

definition isDelimiter_tut :: "string \<Rightarrow> bool" where
  "isDelimiter_tut s = prefix ''@OUTPUT'' s"

definition delimiterKey_tut :: "string \<Rightarrow> string" where
  "delimiterKey_tut s = takeWhile (\<lambda>c. c \<noteq> CHR '':'') s"

definition flush_tut :: "parser_state \<Rightarrow> (string \<times> string list) list" where
  "flush_tut st = (if blockKey st \<noteq> []
     then AList.update (blockKey st) (blockLines st) (outputBlocks st)
     else outputBlocks st)"

definition parse_line_tut :: "parser_state \<Rightarrow> string \<Rightarrow> parser_state" where
  "parse_line_tut st s =
     (let st1 = (if isDelimiter_tut s
                 then \<lparr>outputBlocks = flush_tut st,
                       blockKey = delimiterKey_tut s,
                       blockLines = (if blockKey st \<noteq> [] then [] else blockLines st)\<rparr>
                 else st)
      in st1\<lparr>blockLines := blockLines st1 @ [s]\<rparr>)"

definition parse_output_tut :: "string list \<Rightarrow> (string \<times> string list) list" where
  "parse_output_tut programOutputLines =
     flush_tut (foldl parse_line_tut parser_init programOutputLines)"

definition isText_tut :: "string \<Rightarrow> bool" where
  "isText_tut s = prefix textPrefix s"

definition isCode_tut :: "string \<Rightarrow> bool" where
  "isCode_tut s = (\<not> isText_tut s)"

text \<open>\<^verbatim>\<open>def stripPrefix(x): return s[len(textPrefix):]\<close>, again on the global \<^verbatim>\<open>s\<close>.\<close>

definition stripPrefix :: "string \<Rightarrow> string \<Rightarrow> string" where
  "stripPrefix s x = drop (length textPrefix) s"

definition extendText_tut :: "nat \<Rightarrow> bool \<Rightarrow> string list \<Rightarrow> string list \<times> bool" where
  "extendText_tut i previousLineWasText src =
     (let s = src ! i in
      if isBlank s \<and> previousLineWasText then (src[i := textPrefix], True)
      else (src, isText_tut s))"

definition sweep_tut :: "nat list \<Rightarrow> string list \<times> bool \<Rightarrow> string list \<times> bool" where
  "sweep_tut is = fold (\<lambda>i (src, prevLineWasText). extendText_tut i prevLineWasText src) is"

definition extend_src_tut :: "string list \<Rightarrow> string list" where
  "extend_src_tut sourceLines =
     (let N = length sourceLines;
          forward = sweep_tut [0..<N] (sourceLines, True);
          backward = sweep_tut (rev [0..<N]) forward
      in fst backward)"

definition outputText_tut :: "(string \<times> string list) list \<Rightarrow> string \<Rightarrow> string list" where
  "outputText_tut tbl s =
     (let ss = strip s in
      case map_of tbl ss of
        Some b \<Rightarrow> [''> ```''] @ map (\<lambda>x. ''> '' @ x) b @ [''> ```'']
      | None \<Rightarrow> [s])"

text \<open>The state of the tutorial's loop is the single variable \<^verbatim>\<open>isOutputting\<close>.\<close>

definition step_tut ::
  "(string \<times> string list) list \<Rightarrow> outputting \<Rightarrow> string \<Rightarrow> outputting \<times> out_line list"
where
  "step_tut tbl st s =
     (if st = Text then
        (if isText_tut s then
           (st, map Text_line (outputText_tut tbl (stripPrefix s s)))
         else
           (Code, [Fence_open, Code_line s]))
      else
        (if isCode_tut s then
           (st, [Code_line s])
         else
           (Text, Fence_close # map Text_line (outputText_tut tbl (stripPrefix s s)))))"

fun run_tut ::
  "(string \<times> string list) list \<Rightarrow> outputting \<Rightarrow> string list \<Rightarrow> outputting \<times> out_line list"
where
  "run_tut tbl st [] = (st, [])"
| "run_tut tbl st (s # src) =
     (let (st1, out1) = step_tut tbl st s;
          (st2, out2) = run_tut tbl st1 src
      in (st2, out1 @ out2))"

definition transduce_tut :: "(string \<times> string list) list \<Rightarrow> string list \<Rightarrow> out_line list" where
  "transduce_tut tbl src =
     (let (st, out) = run_tut tbl Text src
      in out @ (if st = Code then [Fence_close] else []))"

definition emdeer_tut :: "string list \<Rightarrow> string list \<Rightarrow> out_line list" where
  "emdeer_tut programOutputLines sourceLines =
     transduce_tut (parse_output_tut programOutputLines) (extend_src_tut sourceLines)"

section \<open>The region extension as the specification words it\<close>

text \<open>
  The specification describes a backward sweep that is seeded with the flag true again.
  This second definition follows that wording; it is compared with \<open>extend_src\<close> below.
\<close>

definition extend_reseeded :: "string list \<Rightarrow> string list" where
  "extend_reseeded sourceLines =
     (let N = length sourceLines;
          forward = sweep [0..<N] (sourceLines, True);
          backward = sweep (rev [0..<N]) (fst forward, True)
      in fst backward)"

text \<open>Counting the fence markers of an output.\<close>

definition fence_opens :: "out_line list \<Rightarrow> nat" where
  "fence_opens out = length (filter (\<lambda>l. l = Fence_open) out)"

definition fence_closes :: "out_line list \<Rightarrow> nat" where
  "fence_closes out = length (filter (\<lambda>l. l = Fence_close) out)"

text \<open>
  The invariant of the main loop: outside a hidden region the loop is in the text or the
  code state, and inside one the saved state is one of these two.
\<close>

definition saved_ok :: "transducer_state \<Rightarrow> bool" where
  "saved_ok st = (isOutputting st = Text \<or> isOutputting st = Code \<or>
     (isOutputting st = Hidden \<and> (savedOutputting st = Text \<or> savedOutputting st = Code)))"

text \<open>
  The state of the main loop is inside an open code fence when it is in the code state, or
  in a hidden region that was entered from the code state.
\<close>

definition in_fence :: "transducer_state \<Rightarrow> bool" where
  "in_fence st = (isOutputting st = Code \<or>
     (isOutputting st = Hidden \<and> savedOutputting st = Code))"

section \<open>A sweep as a recursion over the lines\<close>

text \<open>
  One sweep of \<^verbatim>\<open>extendText\<close> over consecutive indices, written as a recursion over the
  lines it visits: the first function gives the rewritten lines, the second the flag that
  the sweep leaves. The parameter \<open>T\<close> is the text test of the program (\<open>isText\<close> or
  \<open>isText_tut\<close>). The lemmas \<open>sweep_forward\<close> and \<open>sweep_backward\<close> below relate
  the index loops of the programs to this recursion. \<open>stable\<close> says that a sweep started
  with flag \<open>f\<close> rewrites no line.
\<close>

fun fwd_lines :: "(string \<Rightarrow> bool) \<Rightarrow> bool \<Rightarrow> string list \<Rightarrow> string list" where
  "fwd_lines T f [] = []"
| "fwd_lines T f (s # ss) =
     (if isBlank s \<and> f then textPrefix # fwd_lines T True ss else s # fwd_lines T (T s) ss)"

fun fwd_flag :: "(string \<Rightarrow> bool) \<Rightarrow> bool \<Rightarrow> string list \<Rightarrow> bool" where
  "fwd_flag T f [] = f"
| "fwd_flag T f (s # ss) =
     (if isBlank s \<and> f then fwd_flag T True ss else fwd_flag T (T s) ss)"

fun stable :: "(string \<Rightarrow> bool) \<Rightarrow> bool \<Rightarrow> string list \<Rightarrow> bool" where
  "stable T f [] = True"
| "stable T f (s # ss) = (\<not> (isBlank s \<and> f) \<and> stable T (T s) ss)"

section \<open>Facts about whitespace stripping and line classes\<close>

lemma strip_Nil [simp]: "strip [] = []"
  by (simp add: strip_def)

lemma strip_eq_Nil_iff: "strip s = [] \<longleftrightarrow> (\<forall>c\<in>set s. isspace c)"
proof -
  have "set s = set (takeWhile isspace s) \<union> set (dropWhile isspace s)"
    by (metis set_append takeWhile_dropWhile_id)
  moreover have "\<forall>c\<in>set (takeWhile isspace s). isspace c"
    by (auto dest: set_takeWhileD)
  ultimately show ?thesis
    by (auto simp: strip_def dropWhile_eq_Nil_conv)
qed

lemma strip_pad:
  assumes "\<forall>c\<in>set a. isspace c" "\<forall>c\<in>set b. isspace c"
    and "m \<noteq> []" "\<not> isspace (hd m)" "\<not> isspace (last m)"
  shows "strip (a @ m @ b) = m"
proof -
  have 1: "dropWhile isspace (a @ m @ b) = m @ b"
    using assms by (cases m) (simp_all add: dropWhile_append3)
  have 2: "dropWhile isspace (rev b @ rev m) = rev m"
    using assms by (cases "rev m") (auto simp: dropWhile_append3 last_rev hd_rev)
  show ?thesis by (simp add: strip_def 1 2)
qed

lemma strip_id: "s \<noteq> [] \<Longrightarrow> \<not> isspace (hd s) \<Longrightarrow> \<not> isspace (last s) \<Longrightarrow> strip s = s"
  using strip_pad [of "[]" "[]" s] by simp

lemma strip_decomp:
  "\<exists>a b. s = a @ strip s @ b \<and> (\<forall>c\<in>set a. isspace c) \<and> (\<forall>c\<in>set b. isspace c)"
proof -
  let ?t = "dropWhile isspace s"
  have 1: "s = takeWhile isspace s @ ?t" by simp
  have 2: "rev ?t = takeWhile isspace (rev ?t) @ dropWhile isspace (rev ?t)" by simp
  have 3: "?t = strip s @ rev (takeWhile isspace (rev ?t))"
    unfolding strip_def using arg_cong[OF 2, of rev] by (simp del: takeWhile_dropWhile_id)
  have "s = takeWhile isspace s @ strip s @ rev (takeWhile isspace (rev ?t))"
    using 1 3 by metis
  moreover have "\<forall>c\<in>set (takeWhile isspace s). isspace c" by (auto dest: set_takeWhileD)
  moreover have "\<forall>c\<in>set (rev (takeWhile isspace (rev ?t))). isspace c" by (auto dest: set_takeWhileD)
  ultimately show ?thesis by blast
qed

lemma isBlank_iff: "isBlank s \<longleftrightarrow> (\<forall>c\<in>set s. isspace c)"
  by (simp add: isBlank_def strip_eq_Nil_iff)

lemma not_isBlank_textPrefix [simp]: "\<not> isBlank textPrefix"
  by (simp add: isBlank_iff textPrefix_def isspace_def)

lemma isText_textPrefix [simp]: "isText textPrefix"
  by (simp add: isText_def)

lemma isBlank_not_isText: "isBlank s \<Longrightarrow> \<not> isText s"
proof
  assume b: "isBlank s" and t: "isText s"
  from b have s: "strip s = []" by (simp add: isBlank_def)
  have tp: "strip textPrefix = ''///''" by (simp add: strip_def textPrefix_def isspace_def)
  from t s tp have "prefix textPrefix s" by (simp add: isText_def)
  then have "CHR ''/'' \<in> set s" by (auto simp: prefix_def textPrefix_def)
  with b show False by (auto simp: isBlank_iff isspace_def)
qed

lemma strip_Cons: "\<not> isspace a \<Longrightarrow> \<exists>t. strip (a # l) = a # t"
proof -
  assume a: "\<not> isspace a"
  have "strip (a # l) = a # rev (if \<forall>x\<in>set l. isspace x then [] else dropWhile isspace (rev l))"
    using a by (simp add: strip_def dropWhile_append)
  then show ?thesis by blast
qed

lemma strip_textPrefix: "strip textPrefix = ''///''"
  by (simp add: strip_def textPrefix_def isspace_def)

lemma begin_not_text: "isBeginHide s \<Longrightarrow> \<not> isText s"
proof
  assume b: "isBeginHide s" and t: "isText s"
  from b have s: "strip s = ''MD_BEGIN_HIDE''" by (simp add: isBeginHide_def)
  with t have "prefix textPrefix s" by (simp add: isText_def strip_textPrefix)
  then obtain zs where "s = CHR ''/'' # zs" by (auto simp: prefix_def textPrefix_def)
  moreover have "\<not> isspace CHR ''/''" by (simp add: isspace_def)
  ultimately obtain t where "strip s = CHR ''/'' # t" using strip_Cons by blast
  with s show False by simp
qed

section \<open>Facts about the main loop\<close>

lemma run_append:
  "run tbl st (xs @ ys) =
     (let (st1, out1) = run tbl st xs; (st2, out2) = run tbl st1 ys in (st2, out1 @ out2))"
  by (induction xs arbitrary: st) (simp_all add: split_def Let_def)

lemma begin_not_end: "isBeginHide s \<Longrightarrow> \<not> isEndHide s"
  by (simp add: isBeginHide_def isEndHide_def)

lemma run_hidden:
  "isOutputting st = Hidden \<Longrightarrow> \<forall>x\<in>set ms. \<not> isEndHide x \<Longrightarrow> run tbl st ms = (st, [])"
  by (induction ms) (simp_all add: step_def)

lemma step_saved_ok: "saved_ok st \<Longrightarrow> saved_ok (fst (step tbl st s))"
  by (auto simp: saved_ok_def step_def)

lemma run_saved_ok: "saved_ok st \<Longrightarrow> saved_ok (fst (run tbl st src))"
proof (induction src arbitrary: st)
  case Nil
  then show ?case by simp
next
  case (Cons s src)
  from Cons.IH [OF step_saved_ok [OF Cons.prems, of tbl s]]
  show ?case by (simp add: split_def Let_def)
qed

section \<open>Facts about the output-block parser\<close>

lemma in_set_strip: "c \<in> set u \<Longrightarrow> \<not> isspace c \<Longrightarrow> c \<in> set (strip u)"
proof -
  assume c: "c \<in> set u" "\<not> isspace c"
  obtain a b where "u = a @ strip u @ b" "\<forall>c\<in>set a. isspace c" "\<forall>c\<in>set b. isspace c"
    using strip_decomp by blast
  with c show ?thesis by (metis Un_iff set_append)
qed

lemma delimiter_shape:
  assumes "isDelimiter s"
  shows "\<exists>a r b. s = a @ ''# ['' @ r @ b \<and> r \<noteq> []"
proof -
  obtain a b where s: "s = a @ strip s @ b"
    using strip_decomp by blast
  from assms have p: "prefix ''# ['' (strip s)" and suf: "suffix ''] #'' (strip s)"
    by (simp_all add: isDelimiter_def Let_def)
  from p obtain r where r: "strip s = ''# ['' @ r" by (rule prefixE)
  from suf obtain q where q: "strip s = q @ ''] #''" by (rule suffixE)
  have "r \<noteq> []"
  proof
    assume "r = []"
    with r q have "''# ['' = q @ ''] #''" by simp
    then have "last ''# ['' = last (q @ ''] #'')" by (rule arg_cong)
    then show False by simp
  qed
  moreover from s r have "s = a @ ''# ['' @ r @ b" by simp
  ultimately show ?thesis by blast
qed

lemma delimiterKey_bracket: "isDelimiter s \<Longrightarrow> CHR ''['' \<in> set (delimiterKey s)"
proof -
  assume "isDelimiter s"
  then obtain a r b where s: "s = a @ ''# ['' @ r @ b" and r: "r \<noteq> []"
    using delimiter_shape by blast
  have "tl s = (if a = [] then '' '' else tl a @ ''# '') @ CHR ''['' # (r @ b)"
    using s by (cases a) simp_all
  then have "butlast (tl s) = (if a = [] then '' '' else tl a @ ''# '') @ CHR ''['' # butlast (r @ b)"
    using r by (simp add: butlast_append)
  then have "CHR ''['' \<in> set (butlast (tl s))" by simp
  then show ?thesis unfolding delimiterKey_def by (rule in_set_strip) (simp add: isspace_def)
qed



lemma map_of_flush:
  "map_of (flush st) k =
     (if blockKey st = k \<and> k \<noteq> [] then Some (stripBlankLines (blockLines st))
      else map_of (outputBlocks st) k)"
  by (auto simp: flush_def update_conv')

lemma parse_other_keys:
  "(blockKey st = k \<longrightarrow> k = []) \<Longrightarrow> \<forall>x\<in>set ls. isDelimiter x \<longrightarrow> delimiterKey x \<noteq> k \<Longrightarrow>
     map_of (flush (foldl parse_line st ls)) k = map_of (outputBlocks st) k"
proof (induction ls arbitrary: st)
  case Nil
  then show ?case by (auto simp: map_of_flush)
next
  case (Cons x xs)
  show ?case
  proof (cases "isDelimiter x")
    case True
    let ?st = "\<lparr>outputBlocks = flush st, blockKey = delimiterKey x, blockLines = []\<rparr>"
    have "map_of (flush (foldl parse_line ?st xs)) k = map_of (outputBlocks ?st) k"
      using Cons.prems True by (intro Cons.IH) auto
    moreover have "parse_line st x = ?st" using True by (simp add: parse_line_def)
    moreover have "map_of (flush st) k = map_of (outputBlocks st) k"
      using Cons.prems(1) by (auto simp: map_of_flush)
    ultimately show ?thesis by simp
  next
    case False
    let ?st = "st\<lparr>blockLines := blockLines st @ [x]\<rparr>"
    have "map_of (flush (foldl parse_line ?st xs)) k = map_of (outputBlocks ?st) k"
      using Cons.prems by (intro Cons.IH) auto
    moreover have "parse_line st x = ?st" using False by (simp add: parse_line_def)
    ultimately show ?thesis by simp
  qed
qed



lemma parse_key_origin:
  assumes "map_of (parse_output ls) k = Some b"
  shows "\<exists>d\<in>set ls. isDelimiter d \<and> delimiterKey d = k"
proof (rule ccontr)
  assume "\<not> ?thesis"
  then have "map_of (flush (foldl parse_line parser_init ls)) k = map_of (outputBlocks parser_init) k"
    by (intro parse_other_keys) (auto simp: parser_init_def)
  with assms show False by (simp add: parse_output_def parser_init_def)
qed






section \<open>Facts about the tutorial's output-block parser\<close>

lemma delimiterKey_tut_prefix: "isDelimiter_tut s \<Longrightarrow> prefix ''@OUTPUT'' (delimiterKey_tut s)"
  by (auto simp: isDelimiter_tut_def delimiterKey_tut_def prefix_def)

lemma delimiterKey_tut_nonempty: "isDelimiter_tut s \<Longrightarrow> delimiterKey_tut s \<noteq> []"
  using delimiterKey_tut_prefix by fastforce

lemma parse_line_tut_delimiter:
  "isDelimiter_tut d \<Longrightarrow> parse_line_tut st d =
     \<lparr>outputBlocks = flush_tut st, blockKey = delimiterKey_tut d,
      blockLines = (if blockKey st \<noteq> [] then [] else blockLines st) @ [d]\<rparr>"
  by (simp add: parse_line_tut_def)

lemma parse_line_tut_other:
  "\<not> isDelimiter_tut x \<Longrightarrow> parse_line_tut st x = st\<lparr>blockLines := blockLines st @ [x]\<rparr>"
  by (simp add: parse_line_tut_def)


lemma map_of_flush_tut:
  "map_of (flush_tut st) k =
     (if blockKey st = k \<and> k \<noteq> [] then Some (blockLines st) else map_of (outputBlocks st) k)"
  by (auto simp: flush_tut_def update_conv')

lemma parse_tut_other_keys:
  "(blockKey st = k \<longrightarrow> k = []) \<Longrightarrow>
   \<forall>x\<in>set ls. isDelimiter_tut x \<longrightarrow> delimiterKey_tut x \<noteq> k \<Longrightarrow>
     map_of (flush_tut (foldl parse_line_tut st ls)) k = map_of (outputBlocks st) k"
proof (induction ls arbitrary: st)
  case Nil
  then show ?case by (auto simp: map_of_flush_tut)
next
  case (Cons x xs)
  show ?case
  proof (cases "isDelimiter_tut x")
    case True
    let ?st = "parse_line_tut st x"
    have st: "outputBlocks ?st = flush_tut st" "blockKey ?st = delimiterKey_tut x"
      using True by (simp_all add: parse_line_tut_delimiter)
    have "map_of (flush_tut (foldl parse_line_tut ?st xs)) k = map_of (outputBlocks ?st) k"
      using Cons.prems True st by (intro Cons.IH) auto
    moreover have "map_of (flush_tut st) k = map_of (outputBlocks st) k"
      using Cons.prems(1) by (auto simp: map_of_flush_tut)
    ultimately show ?thesis using st by simp
  next
    case False
    let ?st = "st\<lparr>blockLines := blockLines st @ [x]\<rparr>"
    have "map_of (flush_tut (foldl parse_line_tut ?st xs)) k = map_of (outputBlocks ?st) k"
      using Cons.prems by (intro Cons.IH) auto
    moreover have "parse_line_tut st x = ?st" using False by (rule parse_line_tut_other)
    ultimately show ?thesis by simp
  qed
qed




lemma parse_tut_key_origin:
  assumes "map_of (parse_output_tut ls) k = Some b"
  shows "\<exists>d\<in>set ls. isDelimiter_tut d \<and> delimiterKey_tut d = k"
proof (rule ccontr)
  assume "\<not> ?thesis"
  then have "map_of (flush_tut (foldl parse_line_tut parser_init ls)) k =
      map_of (outputBlocks parser_init) k"
    by (intro parse_tut_other_keys) (auto simp: parser_init_def)
  with assms show False by (simp add: parse_output_tut_def parser_init_def)
qed




lemma key_has_bracket: "map_of (parse_output ls) k = Some b \<Longrightarrow> CHR ''['' \<in> set k"
  using parse_key_origin delimiterKey_bracket by blast

lemma key_nonempty: "map_of (parse_output ls) k = Some b \<Longrightarrow> k \<noteq> []"
  using key_has_bracket by fastforce

lemma key_tut_nonempty: "map_of (parse_output_tut ls) k = Some b \<Longrightarrow> k \<noteq> []"
  using parse_tut_key_origin delimiterKey_tut_nonempty by blast

lemma map_of_Nil_key: "map_of (parse_output ls) [] = None"
  using key_nonempty by (cases "map_of (parse_output ls) []") auto

lemma map_of_tut_Nil_key: "map_of (parse_output_tut ls) [] = None"
  using key_tut_nonempty by (cases "map_of (parse_output_tut ls) []") auto

lemma strip_nonspace: "strip s \<noteq> [] \<Longrightarrow> \<exists>c\<in>set (strip s). \<not> isspace c"
  using strip_eq_Nil_iff [of "strip s"] strip_decomp [of s]
  by (metis strip_eq_Nil_iff Un_iff set_append)

section \<open>Facts about the fence markers\<close>

lemma fence_opens_simps [simp]:
  "fence_opens [] = 0"
  "fence_opens (Fence_open # out) = Suc (fence_opens out)"
  "fence_opens (Fence_close # out) = fence_opens out"
  "fence_opens (Code_line s # out) = fence_opens out"
  "fence_opens (Text_line s # out) = fence_opens out"
  "fence_opens (out @ out') = fence_opens out + fence_opens out'"
  by (simp_all add: fence_opens_def)

lemma fence_closes_simps [simp]:
  "fence_closes [] = 0"
  "fence_closes (Fence_open # out) = fence_closes out"
  "fence_closes (Fence_close # out) = Suc (fence_closes out)"
  "fence_closes (Code_line s # out) = fence_closes out"
  "fence_closes (Text_line s # out) = fence_closes out"
  "fence_closes (out @ out') = fence_closes out + fence_closes out'"
  by (simp_all add: fence_closes_def)

lemma fence_Text_lines [simp]:
  "fence_opens (map Text_line xs) = 0" "fence_closes (map Text_line xs) = 0"
  by (induction xs) simp_all

lemma step_fence:
  assumes "saved_ok st"
  shows "fence_opens (snd (step tbl st s)) + (if in_fence st then 1 else 0) =
         fence_closes (snd (step tbl st s)) + (if in_fence (fst (step tbl st s)) then 1 else 0)"
  using assms by (auto simp: saved_ok_def in_fence_def step_def)

lemma run_fence:
  "saved_ok st \<Longrightarrow>
     fence_opens (snd (run tbl st src)) + (if in_fence st then 1 else 0) =
     fence_closes (snd (run tbl st src)) + (if in_fence (fst (run tbl st src)) then 1 else 0)"
proof (induction src arbitrary: st)
  case Nil
  then show ?case by simp
next
  case (Cons s src)
  let ?st1 = "fst (step tbl st s)"
  have ok: "saved_ok ?st1" using Cons.prems by (rule step_saved_ok)
  have r: "run tbl st (s # src) =
      (fst (run tbl ?st1 src), snd (step tbl st s) @ snd (run tbl ?st1 src))"
    by (simp add: split_def Let_def)
  from step_fence [OF Cons.prems, of tbl s] Cons.IH [OF ok]
  show ?case unfolding r by (simp split: if_splits)
qed

lemma transduce_fence:
  "fence_opens (transduce tbl src) =
     fence_closes (transduce tbl src) +
       (if isOutputting (fst (run tbl transducer_init src)) = Hidden \<and>
           savedOutputting (fst (run tbl transducer_init src)) = Code then 1 else 0)"
proof -
  have ok: "saved_ok transducer_init" by (simp add: saved_ok_def transducer_init_def)
  have nf: "\<not> in_fence transducer_init" by (simp add: in_fence_def transducer_init_def)
  from run_fence [OF ok, of tbl src] nf
  show ?thesis by (auto simp: transduce_def split_def Let_def in_fence_def split: if_splits)
qed

lemma step_tut_fence:
  assumes "st = Text \<or> st = Code"
  shows "fence_opens (snd (step_tut tbl st s)) + (if st = Code then 1 else 0) =
         fence_closes (snd (step_tut tbl st s)) + (if fst (step_tut tbl st s) = Code then 1 else 0)"
    and "fst (step_tut tbl st s) = Text \<or> fst (step_tut tbl st s) = Code"
  using assms by (auto simp: step_tut_def)

lemma run_tut_fence:
  "st = Text \<or> st = Code \<Longrightarrow>
     fence_opens (snd (run_tut tbl st src)) + (if st = Code then 1 else 0) =
     fence_closes (snd (run_tut tbl st src)) + (if fst (run_tut tbl st src) = Code then 1 else 0)"
proof (induction src arbitrary: st)
  case Nil
  then show ?case by simp
next
  case (Cons s src)
  let ?st1 = "fst (step_tut tbl st s)"
  have ok: "?st1 = Text \<or> ?st1 = Code" using Cons.prems by (rule step_tut_fence(2))
  have r: "run_tut tbl st (s # src) =
      (fst (run_tut tbl ?st1 src), snd (step_tut tbl st s) @ snd (run_tut tbl ?st1 src))"
    by (simp add: split_def Let_def)
  from step_tut_fence(1) [OF Cons.prems, of tbl s] Cons.IH [OF ok]
  show ?case unfolding r by (simp split: if_splits)
qed

lemma transduce_tut_fence:
  "fence_opens (transduce_tut tbl src) = fence_closes (transduce_tut tbl src)"
  using run_tut_fence [of Text tbl src]
  by (auto simp: transduce_tut_def split_def Let_def split: if_splits)

section \<open>Facts about the region extension\<close>

lemma sweep_Cons: "sweep (i # is) (src, f) = sweep is (extendText i f src)"
  by (simp add: sweep_def)

lemma sweep_Nil: "sweep [] st = st"
  by (simp add: sweep_def)

lemma sweep_forward:
  "length pre = k \<Longrightarrow>
     sweep [k..<k + length xs] (pre @ xs @ post, f) =
       (pre @ fwd_lines isText f xs @ post, fwd_flag isText f xs)"
proof (induction xs arbitrary: pre k f)
  case Nil
  then show ?case by (simp add: sweep_Nil)
next
  case (Cons s ss)
  have up: "[k..<k + length (s # ss)] = k # [Suc k..<Suc k + length ss]"
    by (subst upt_rec) simp
  have nth: "(pre @ (s # ss) @ post) ! k = s" using Cons.prems by (simp add: nth_append)
  show ?case
  proof (cases "isBlank s \<and> f")
    case True
    have "extendText k f (pre @ (s # ss) @ post) = ((pre @ [textPrefix]) @ ss @ post, True)"
      using True nth Cons.prems by (simp add: extendText_def list_update_append)
    moreover have "sweep [Suc k..<Suc k + length ss] ((pre @ [textPrefix]) @ ss @ post, True) =
        ((pre @ [textPrefix]) @ fwd_lines isText True ss @ post, fwd_flag isText True ss)"
      using Cons.prems by (intro Cons.IH) simp
    moreover have "fwd_lines isText f (s # ss) = textPrefix # fwd_lines isText True ss"
      "fwd_flag isText f (s # ss) = fwd_flag isText True ss"
      using True by auto
    ultimately show ?thesis unfolding up sweep_Cons by simp
  next
    case False
    have "extendText k f (pre @ (s # ss) @ post) = ((pre @ [s]) @ ss @ post, isText s)"
      using False nth by (auto simp add: extendText_def)
    moreover have "sweep [Suc k..<Suc k + length ss] ((pre @ [s]) @ ss @ post, isText s) =
        ((pre @ [s]) @ fwd_lines isText (isText s) ss @ post, fwd_flag isText (isText s) ss)"
      using Cons.prems by (intro Cons.IH) simp
    moreover have "fwd_lines isText f (s # ss) = s # fwd_lines isText (isText s) ss"
      "fwd_flag isText f (s # ss) = fwd_flag isText (isText s) ss"
      using False by auto
    ultimately show ?thesis unfolding up sweep_Cons by simp
  qed
qed

lemma sweep_backward:
  "sweep (rev [0..<length xs]) (xs @ post, f) =
     (rev (fwd_lines isText f (rev xs)) @ post, fwd_flag isText f (rev xs))"
proof (induction xs arbitrary: post f rule: rev_induct)
  case Nil
  then show ?case by (simp add: sweep_Nil)
next
  case (snoc y ys)
  have up: "rev [0..<length (ys @ [y])] = length ys # rev [0..<length ys]" by simp
  have nth: "((ys @ [y]) @ post) ! length ys = y" by (simp add: nth_append)
  show ?case
  proof (cases "isBlank y \<and> f")
    case True
    have "extendText (length ys) f ((ys @ [y]) @ post) = (ys @ textPrefix # post, True)"
      using True nth by (simp add: extendText_def list_update_append)
    moreover have "fwd_lines isText f (y # rev ys) = textPrefix # fwd_lines isText True (rev ys)"
      "fwd_flag isText f (y # rev ys) = fwd_flag isText True (rev ys)"
      using True by auto
    ultimately show ?thesis using snoc.IH [of "textPrefix # post" True] unfolding up sweep_Cons by simp
  next
    case False
    have "extendText (length ys) f ((ys @ [y]) @ post) = (ys @ y # post, isText y)"
      using False nth by (auto simp add: extendText_def)
    moreover have "fwd_lines isText f (y # rev ys) = y # fwd_lines isText (isText y) (rev ys)"
      "fwd_flag isText f (y # rev ys) = fwd_flag isText (isText y) (rev ys)"
      using False by auto
    ultimately show ?thesis using snoc.IH [of "y # post" "isText y"] unfolding up sweep_Cons by simp
  qed
qed

lemma length_fwd_lines [simp]: "length (fwd_lines T f xs) = length xs"
  by (induction xs arbitrary: f) auto

lemma extend_src_eq:
  "extend_src xs = rev (fwd_lines isText (fwd_flag isText True xs) (rev (fwd_lines isText True xs)))"
proof -
  have f: "sweep [0..<length xs] (xs, True) = (fwd_lines isText True xs, fwd_flag isText True xs)"
    using sweep_forward [of "[]" 0 xs "[]" True] by simp
  have b: "sweep (rev [0..<length xs]) (fwd_lines isText True xs, fwd_flag isText True xs) =
      (rev (fwd_lines isText (fwd_flag isText True xs) (rev (fwd_lines isText True xs))),
       fwd_flag isText (fwd_flag isText True xs) (rev (fwd_lines isText True xs)))"
    using sweep_backward [of "fwd_lines isText True xs" "[]" "fwd_flag isText True xs"] by simp
  show ?thesis by (simp add: extend_src_def Let_def f b)
qed

lemma extend_reseeded_eq:
  "extend_reseeded xs = rev (fwd_lines isText True (rev (fwd_lines isText True xs)))"
proof -
  have f: "sweep [0..<length xs] (xs, True) = (fwd_lines isText True xs, fwd_flag isText True xs)"
    using sweep_forward [of "[]" 0 xs "[]" True] by simp
  have b: "sweep (rev [0..<length xs]) (fwd_lines isText True xs, True) =
      (rev (fwd_lines isText True (rev (fwd_lines isText True xs))),
       fwd_flag isText True (rev (fwd_lines isText True xs)))"
    using sweep_backward [of "fwd_lines isText True xs" "[]" True] by simp
  show ?thesis by (simp add: extend_reseeded_def Let_def f b)
qed


lemma fwd_lines_Nil_iff [simp]: "fwd_lines T f xs = [] \<longleftrightarrow> xs = []"
  by (cases xs) auto

lemma stable_fwd_lines_id: "stable T f xs \<Longrightarrow> fwd_lines T f xs = xs"
  by (induction xs arbitrary: f) auto

lemma stable_fwd_flag:
  "stable T f xs \<Longrightarrow> fwd_flag T f xs = (if xs = [] then f else T (last xs))"
  by (induction xs arbitrary: f) auto

lemma stable_fwd_lines: "T textPrefix \<Longrightarrow> stable T f (fwd_lines T f xs)"
  by (induction xs arbitrary: f) auto

lemma hd_fwd_lines:
  "hd (fwd_lines T f (x # xs)) = (if isBlank x \<and> f then textPrefix else x)"
  by simp

lemma last_fwd_lines:
  "xs \<noteq> [] \<Longrightarrow> last (fwd_lines T f xs) = last xs \<or> last (fwd_lines T f xs) = textPrefix"
  by (induction xs arbitrary: f) auto

lemma stable_iff:
  "stable T f xs \<longleftrightarrow>
     (xs = [] \<or> \<not> (f \<and> isBlank (hd xs))) \<and> successively (\<lambda>a b. \<not> (T a \<and> isBlank b)) xs"
proof (induction xs arbitrary: f)
  case Nil
  then show ?case by simp
next
  case (Cons x xs)
  show ?case using Cons.IH [of "T x"] by (cases xs) auto
qed

lemma successively_fwd_lines:
  assumes "\<And>s. isBlank s \<Longrightarrow> \<not> T s"
  shows "successively (\<lambda>a b. \<not> (T b \<and> isBlank a)) xs \<Longrightarrow>
         successively (\<lambda>a b. \<not> (T b \<and> isBlank a)) (fwd_lines T f xs)"
proof (induction xs arbitrary: f)
  case Nil
  then show ?case by simp
next
  case (Cons x xs)
  show ?case
  proof (cases xs)
    case Nil
    then show ?thesis by simp
  next
    case (Cons y ys)
    have tl: "successively (\<lambda>a b. \<not> (T b \<and> isBlank a)) (fwd_lines T g xs)" for g
      using Cons.prems Cons.IH local.Cons by simp
    have xy: "\<not> (T y \<and> isBlank x)" using Cons.prems local.Cons by simp
    show ?thesis
    proof (cases "isBlank x \<and> f")
      case True
      have "successively (\<lambda>a b. \<not> (T b \<and> isBlank a)) (textPrefix # fwd_lines T True (y # ys))"
        using tl [of True] local.Cons by (simp add: successively_Cons)
      then show ?thesis using True local.Cons by simp
    next
      case False
      have "\<not> (T (hd (fwd_lines T (T x) (y # ys))) \<and> isBlank x)"
        using xy assms [of x] by auto
      then have "successively (\<lambda>a b. \<not> (T b \<and> isBlank a)) (x # fwd_lines T (T x) (y # ys))"
        using tl [of "T x"] local.Cons by (simp add: successively_Cons)
      then show ?thesis using False local.Cons by auto
    qed
  qed
qed

lemma two_pass_stable:
  fixes T :: "string \<Rightarrow> bool" and xs :: "string list" and g h :: bool
  assumes T: "T textPrefix" and B: "\<And>s. isBlank s \<Longrightarrow> \<not> T s"
  defines "ys \<equiv> fwd_lines T True xs"
  defines "zs \<equiv> rev (fwd_lines T g (rev ys))"
  shows "stable T True zs" and "stable T (if zs = [] then h else T (last zs)) (rev zs)"
    and "g \<Longrightarrow> stable T True (rev zs)"
proof -
  let ?ws = "fwd_lines T g (rev ys)"
  have nb: "\<not> isBlank textPrefix" by simp
  have ys: "stable T True ys" unfolding ys_def using T by (rule stable_fwd_lines)
  have ws: "stable T g ?ws" using T by (rule stable_fwd_lines)
  have zs: "rev zs = ?ws" by (simp add: zs_def)
  have "successively (\<lambda>a b. \<not> (T a \<and> isBlank b)) ys" using ys by (simp add: stable_iff)
  then have "successively (\<lambda>a b. \<not> (T b \<and> isBlank a)) (rev ys)" by simp
  then have "successively (\<lambda>a b. \<not> (T b \<and> isBlank a)) ?ws"
    using B successively_fwd_lines [of T "rev ys" g] by blast
  then have s1: "successively (\<lambda>a b. \<not> (T a \<and> isBlank b)) zs" by (simp add: zs_def)
  have h1: "zs = [] \<or> \<not> isBlank (hd zs)"
  proof (cases "ys = []")
    case True
    then show ?thesis by (simp add: zs_def)
  next
    case False
    then have "\<not> isBlank (hd ys)" using ys by (simp add: stable_iff)
    then have "\<not> isBlank (last (rev ys))" using False by (simp add: last_rev)
    moreover have "last ?ws = last (rev ys) \<or> last ?ws = textPrefix"
      using False by (intro last_fwd_lines) simp
    ultimately have "\<not> isBlank (last ?ws)" using nb by auto
    then show ?thesis using False by (simp add: zs_def hd_rev)
  qed
  show "stable T True zs" using s1 h1 by (simp add: stable_iff)
  have s2: "successively (\<lambda>a b. \<not> (T a \<and> isBlank b)) (rev zs)"
    using ws unfolding zs by (simp add: stable_iff)
  have "zs = [] \<or> \<not> (T (last zs) \<and> isBlank (hd (rev zs)))"
    using B [of "last zs"] by (auto simp: hd_rev)
  then show "stable T (if zs = [] then h else T (last zs)) (rev zs)"
    using s2 unfolding stable_iff by auto
  show "stable T True (rev zs)" if g
    using ws that unfolding zs by simp
qed

lemma extend_src_idempotent: "extend_src (extend_src xs) = extend_src xs"
proof -
  let ?zs = "extend_src xs"
  have zs: "?zs = rev (fwd_lines isText (fwd_flag isText True xs) (rev (fwd_lines isText True xs)))"
    by (rule extend_src_eq)
  have 1: "stable isText True ?zs"
    unfolding zs by (rule two_pass_stable(1)) (simp_all add: isBlank_not_isText)
  have 2: "stable isText (if ?zs = [] then True else isText (last ?zs)) (rev ?zs)"
    unfolding zs by (rule two_pass_stable(2)) (simp_all add: isBlank_not_isText)
  have "extend_src ?zs =
      rev (fwd_lines isText (fwd_flag isText True ?zs) (rev (fwd_lines isText True ?zs)))"
    by (rule extend_src_eq)
  also have "\<dots> = rev (fwd_lines isText (if ?zs = [] then True else isText (last ?zs)) (rev ?zs))"
    using 1 by (simp only: stable_fwd_lines_id stable_fwd_flag)
  also have "\<dots> = rev (rev ?zs)" using 2 by (simp only: stable_fwd_lines_id)
  finally show ?thesis by simp
qed

lemma extend_reseeded_idempotent: "extend_reseeded (extend_reseeded xs) = extend_reseeded xs"
proof -
  let ?zs = "extend_reseeded xs"
  have zs: "?zs = rev (fwd_lines isText True (rev (fwd_lines isText True xs)))"
    by (rule extend_reseeded_eq)
  have 1: "stable isText True ?zs"
    unfolding zs by (rule two_pass_stable(1)) (simp_all add: isBlank_not_isText)
  have 2: "stable isText True (rev ?zs)"
    unfolding zs by (rule two_pass_stable(3)) (simp_all add: isBlank_not_isText)
  have "extend_reseeded ?zs = rev (fwd_lines isText True (rev (fwd_lines isText True ?zs)))"
    by (rule extend_reseeded_eq)
  also have "\<dots> = rev (fwd_lines isText True (rev ?zs))"
    using 1 by (simp only: stable_fwd_lines_id)
  also have "\<dots> = rev (rev ?zs)" using 2 by (simp only: stable_fwd_lines_id)
  finally show ?thesis by simp
qed

lemma isText_tut_textPrefix: "isText_tut textPrefix"
  by (simp add: isText_tut_def)

lemma isBlank_not_isText_tut: "isBlank s \<Longrightarrow> \<not> isText_tut s"
  using isBlank_not_isText [of s] by (auto simp: isText_tut_def isText_def)

lemma sweep_tut_Cons: "sweep_tut (i # is) (src, f) = sweep_tut is (extendText_tut i f src)"
  by (simp add: sweep_tut_def)

lemma sweep_tut_Nil: "sweep_tut [] st = st"
  by (simp add: sweep_tut_def)

lemma sweep_tut_forward:
  "length pre = k \<Longrightarrow>
     sweep_tut [k..<k + length xs] (pre @ xs @ post, f) =
       (pre @ fwd_lines isText_tut f xs @ post, fwd_flag isText_tut f xs)"
proof (induction xs arbitrary: pre k f)
  case Nil
  then show ?case by (simp add: sweep_tut_Nil)
next
  case (Cons s ss)
  have up: "[k..<k + length (s # ss)] = k # [Suc k..<Suc k + length ss]"
    by (subst upt_rec) simp
  have nth: "(pre @ (s # ss) @ post) ! k = s" using Cons.prems by (simp add: nth_append)
  show ?case
  proof (cases "isBlank s \<and> f")
    case True
    have "extendText_tut k f (pre @ (s # ss) @ post) = ((pre @ [textPrefix]) @ ss @ post, True)"
      using True nth Cons.prems by (simp add: extendText_tut_def list_update_append)
    moreover have "sweep_tut [Suc k..<Suc k + length ss] ((pre @ [textPrefix]) @ ss @ post, True) =
        ((pre @ [textPrefix]) @ fwd_lines isText_tut True ss @ post, fwd_flag isText_tut True ss)"
      using Cons.prems by (intro Cons.IH) simp
    moreover have "fwd_lines isText_tut f (s # ss) = textPrefix # fwd_lines isText_tut True ss"
      "fwd_flag isText_tut f (s # ss) = fwd_flag isText_tut True ss"
      using True by auto
    ultimately show ?thesis unfolding up sweep_tut_Cons by simp
  next
    case False
    have "extendText_tut k f (pre @ (s # ss) @ post) = ((pre @ [s]) @ ss @ post, isText_tut s)"
      using False nth by (auto simp add: extendText_tut_def)
    moreover have "sweep_tut [Suc k..<Suc k + length ss] ((pre @ [s]) @ ss @ post, isText_tut s) =
        ((pre @ [s]) @ fwd_lines isText_tut (isText_tut s) ss @ post, fwd_flag isText_tut (isText_tut s) ss)"
      using Cons.prems by (intro Cons.IH) simp
    moreover have "fwd_lines isText_tut f (s # ss) = s # fwd_lines isText_tut (isText_tut s) ss"
      "fwd_flag isText_tut f (s # ss) = fwd_flag isText_tut (isText_tut s) ss"
      using False by auto
    ultimately show ?thesis unfolding up sweep_tut_Cons by simp
  qed
qed

lemma sweep_tut_backward:
  "sweep_tut (rev [0..<length xs]) (xs @ post, f) =
     (rev (fwd_lines isText_tut f (rev xs)) @ post, fwd_flag isText_tut f (rev xs))"
proof (induction xs arbitrary: post f rule: rev_induct)
  case Nil
  then show ?case by (simp add: sweep_tut_Nil)
next
  case (snoc y ys)
  have up: "rev [0..<length (ys @ [y])] = length ys # rev [0..<length ys]" by simp
  have nth: "((ys @ [y]) @ post) ! length ys = y" by (simp add: nth_append)
  show ?case
  proof (cases "isBlank y \<and> f")
    case True
    have "extendText_tut (length ys) f ((ys @ [y]) @ post) = (ys @ textPrefix # post, True)"
      using True nth by (simp add: extendText_tut_def list_update_append)
    moreover have "fwd_lines isText_tut f (y # rev ys) = textPrefix # fwd_lines isText_tut True (rev ys)"
      "fwd_flag isText_tut f (y # rev ys) = fwd_flag isText_tut True (rev ys)"
      using True by auto
    ultimately show ?thesis using snoc.IH [of "textPrefix # post" True] unfolding up sweep_tut_Cons by simp
  next
    case False
    have "extendText_tut (length ys) f ((ys @ [y]) @ post) = (ys @ y # post, isText_tut y)"
      using False nth by (auto simp add: extendText_tut_def)
    moreover have "fwd_lines isText_tut f (y # rev ys) = y # fwd_lines isText_tut (isText_tut y) (rev ys)"
      "fwd_flag isText_tut f (y # rev ys) = fwd_flag isText_tut (isText_tut y) (rev ys)"
      using False by auto
    ultimately show ?thesis using snoc.IH [of "y # post" "isText_tut y"] unfolding up sweep_tut_Cons by simp
  qed
qed

lemma extend_src_tut_eq:
  "extend_src_tut xs = rev (fwd_lines isText_tut (fwd_flag isText_tut True xs) (rev (fwd_lines isText_tut True xs)))"
proof -
  have f: "sweep_tut [0..<length xs] (xs, True) = (fwd_lines isText_tut True xs, fwd_flag isText_tut True xs)"
    using sweep_tut_forward [of "[]" 0 xs "[]" True] by simp
  have b: "sweep_tut (rev [0..<length xs]) (fwd_lines isText_tut True xs, fwd_flag isText_tut True xs) =
      (rev (fwd_lines isText_tut (fwd_flag isText_tut True xs) (rev (fwd_lines isText_tut True xs))),
       fwd_flag isText_tut (fwd_flag isText_tut True xs) (rev (fwd_lines isText_tut True xs)))"
    using sweep_tut_backward [of "fwd_lines isText_tut True xs" "[]" "fwd_flag isText_tut True xs"] by simp
  show ?thesis by (simp add: extend_src_tut_def Let_def f b)
qed

lemma extend_src_tut_idempotent: "extend_src_tut (extend_src_tut xs) = extend_src_tut xs"
proof -
  let ?zs = "extend_src_tut xs"
  have zs: "?zs = rev (fwd_lines isText_tut (fwd_flag isText_tut True xs) (rev (fwd_lines isText_tut True xs)))"
    by (rule extend_src_tut_eq)
  have 1: "stable isText_tut True ?zs"
    unfolding zs by (rule two_pass_stable(1)) (simp_all add: isText_tut_textPrefix isBlank_not_isText_tut)
  have 2: "stable isText_tut (if ?zs = [] then True else isText_tut (last ?zs)) (rev ?zs)"
    unfolding zs by (rule two_pass_stable(2)) (simp_all add: isText_tut_textPrefix isBlank_not_isText_tut)
  have "extend_src_tut ?zs =
      rev (fwd_lines isText_tut (fwd_flag isText_tut True ?zs) (rev (fwd_lines isText_tut True ?zs)))"
    by (rule extend_src_tut_eq)
  also have "\<dots> = rev (fwd_lines isText_tut (if ?zs = [] then True else isText_tut (last ?zs)) (rev ?zs))"
    using 1 by (simp only: stable_fwd_lines_id stable_fwd_flag)
  also have "\<dots> = rev (rev ?zs)" using 2 by (simp only: stable_fwd_lines_id)
  finally show ?thesis by simp
qed

lemma extend_src_forward:
  "fst (sweep [0..<length (extend_src xs)] (extend_src xs, True)) = extend_src xs"
proof -
  let ?zs = "extend_src xs"
  have "stable isText True ?zs"
    unfolding extend_src_eq by (rule two_pass_stable(1)) (simp_all add: isBlank_not_isText)
  then have "fwd_lines isText True ?zs = ?zs" by (rule stable_fwd_lines_id)
  then show ?thesis using sweep_forward [of "[]" 0 ?zs "[]" True] by simp
qed

lemma extend_reseeded_forward:
  "fst (sweep [0..<length (extend_reseeded xs)] (extend_reseeded xs, True)) = extend_reseeded xs"
proof -
  let ?zs = "extend_reseeded xs"
  have "stable isText True ?zs"
    unfolding extend_reseeded_eq by (rule two_pass_stable(1)) (simp_all add: isBlank_not_isText)
  then have "fwd_lines isText True ?zs = ?zs" by (rule stable_fwd_lines_id)
  then show ?thesis using sweep_forward [of "[]" 0 ?zs "[]" True] by simp
qed

lemma extend_src_tut_forward:
  "fst (sweep_tut [0..<length (extend_src_tut xs)] (extend_src_tut xs, True)) = extend_src_tut xs"
proof -
  let ?zs = "extend_src_tut xs"
  have "stable isText_tut True ?zs"
    unfolding extend_src_tut_eq
    by (rule two_pass_stable(1)) (simp_all add: isText_tut_textPrefix isBlank_not_isText_tut)
  then have "fwd_lines isText_tut True ?zs = ?zs" by (rule stable_fwd_lines_id)
  then show ?thesis using sweep_tut_forward [of "[]" 0 ?zs "[]" True] by simp
qed

text \<open>
  The seed of the backward sweep: on the lines \<^verbatim>\<open>int x;\<close> and an empty line the forward
  sweep ends with the flag false, the backward sweep of the programs starts from that
  value and leaves the empty last line as it is, while a backward sweep seeded with the
  flag true rewrites it to the text prefix.
\<close>

lemma backward_sweep_seed:
  "sweep [0..<2] ([''int x;'', ''''], True) = ([''int x;'', ''''], False) \<and>
   extend_src [''int x;'', ''''] = [''int x;'', ''''] \<and>
   extend_src_tut [''int x;'', ''''] = [''int x;'', ''''] \<and>
   extend_reseeded [''int x;'', ''''] = [''int x;'', ''/// ''] \<and>
   emdeer [] [''int x;'', ''''] = [Fence_open, Code_line ''int x;'', Code_line '''', Fence_close]"
  by code_simp

section \<open>The claims\<close>

text \<open>
  C3. A line handed to the text path whose stripped content is a key of the output-block
  table is replaced by the lines of that block, in order, each behind the blockquote
  marker \<^verbatim>\<open>> \<close> and between two blockquoted fence lines (the newer program writes the key
  line \<^verbatim>\<open>>KEY:\<close> before the opening fence, the tutorial's copy does not); a line whose
  stripped content is no key is written unchanged as one line.
\<close>

theorem outputText_substitution:
  "(map_of tbl (strip s) = Some b \<longrightarrow>
      outputText tbl s =
        [''>'' @ strip s @ '':'', ''> ```''] @ map (\<lambda>x. ''> '' @ x) b @ [''> ```''] \<and>
      outputText_tut tbl s = [''> ```''] @ map (\<lambda>x. ''> '' @ x) b @ [''> ```'']) \<and>
   (map_of tbl (strip s) = None \<longrightarrow> outputText tbl s = [s] \<and> outputText_tut tbl s = [s])"
  by (simp add: outputText_def outputText_tut_def)

theorem outputText_substitution_witness:
  "(map_of [(''[out]'', [''hello'', ''world''])] (strip '' [out] '') = Some [''hello'', ''world''] \<and>
    outputText [(''[out]'', [''hello'', ''world''])] '' [out] '' =
      [''>[out]:'', ''> ```'', ''> hello'', ''> world'', ''> ```''] \<and>
    outputText_tut [(''[out]'', [''hello'', ''world''])] '' [out] '' =
      [''> ```'', ''> hello'', ''> world'', ''> ```'']) \<and>
   (map_of [(''[out]'', [''hello'', ''world''])] (strip '' out '') = None \<and>
    outputText [(''[out]'', [''hello'', ''world''])] '' out '' = ['' out ''] \<and>
    outputText_tut [(''[out]'', [''hello'', ''world''])] '' out '' = ['' out ''])"
proof -
  have h1: "map_of [(''[out]'', [''hello'', ''world''])] (strip '' [out] '') = Some [''hello'', ''world'']"
    by code_simp
  have s1: "strip '' [out] '' = ''[out]''"
    by code_simp
  have h2: "map_of [(''[out]'', [''hello'', ''world''])] (strip '' out '') = None"
    by code_simp
  from outputText_substitution [of "[(''[out]'', [''hello'', ''world''])]" "'' [out] ''" "[''hello'', ''world'']"]
    h1 s1
  have c1: "outputText [(''[out]'', [''hello'', ''world''])] '' [out] '' =
      [''>[out]:'', ''> ```'', ''> hello'', ''> world'', ''> ```''] \<and>
    outputText_tut [(''[out]'', [''hello'', ''world''])] '' [out] '' =
      [''> ```'', ''> hello'', ''> world'', ''> ```'']"
    by simp
  from outputText_substitution [of "[(''[out]'', [''hello'', ''world''])]" "'' out ''" "[]"] h2
  have c2: "outputText [(''[out]'', [''hello'', ''world''])] '' out '' = ['' out ''] \<and>
    outputText_tut [(''[out]'', [''hello'', ''world''])] '' out '' = ['' out '']"
    by simp
  from h1 h2 c1 c2 show ?thesis by simp
qed

text \<open>
  C8. After any run of the main loop from its initial state, if the loop is in the hidden
  state then the saved state is text or code; and a hide-begin line read in the hidden
  state changes neither variable and writes nothing.
\<close>

theorem hidden_saved_state:
  "(isOutputting (fst (run tbl transducer_init src)) = Hidden \<longrightarrow>
      savedOutputting (fst (run tbl transducer_init src)) \<in> {Text, Code}) \<and>
   (isOutputting st = Hidden \<and> isBeginHide s \<longrightarrow> step tbl st s = (st, []))"
proof -
  have "saved_ok transducer_init" by (simp add: saved_ok_def transducer_init_def)
  then have "saved_ok (fst (run tbl transducer_init src))" by (rule run_saved_ok)
  then show ?thesis by (auto simp: saved_ok_def step_def dest: begin_not_end)
qed

theorem hidden_saved_state_witness:
  "isOutputting (fst (run [] transducer_init [''int x;'', ''MD_BEGIN_HIDE'', ''MD_BEGIN_HIDE''])) = Hidden \<and>
   savedOutputting (fst (run [] transducer_init [''int x;'', ''MD_BEGIN_HIDE'', ''MD_BEGIN_HIDE''])) = Code \<and>
   isBeginHide ''MD_BEGIN_HIDE'' \<and>
   step [] \<lparr>isOutputting = Hidden, savedOutputting = Code\<rparr> ''MD_BEGIN_HIDE'' =
     (\<lparr>isOutputting = Hidden, savedOutputting = Code\<rparr>, [])"
proof -
  have h1: "isOutputting (fst (run [] transducer_init [''int x;'', ''MD_BEGIN_HIDE'', ''MD_BEGIN_HIDE''])) = Hidden"
    by code_simp
  have h2: "savedOutputting (fst (run [] transducer_init [''int x;'', ''MD_BEGIN_HIDE'', ''MD_BEGIN_HIDE''])) = Code"
    by code_simp
  have h3: "isBeginHide ''MD_BEGIN_HIDE''"
    by code_simp
  from hidden_saved_state [of "[]" "[''int x;'', ''MD_BEGIN_HIDE'', ''MD_BEGIN_HIDE'']"
      "\<lparr>isOutputting = Hidden, savedOutputting = Code\<rparr>" "''MD_BEGIN_HIDE''"] h3
  have c: "step [] \<lparr>isOutputting = Hidden, savedOutputting = Code\<rparr> ''MD_BEGIN_HIDE'' =
     (\<lparr>isOutputting = Hidden, savedOutputting = Code\<rparr>, [])"
    by simp
  from h1 h2 h3 c show ?thesis by simp
qed

text \<open>
  C2. When the loop reaches a hide-begin line outside a hidden region, that line, every
  following line up to the first hide-end line, and the hide-end line itself write
  nothing, and after the hide-end line the loop is in the state it was in before the
  hide-begin line.
\<close>

theorem hide_region_transparent:
  assumes "isOutputting (fst (run tbl transducer_init pre)) \<noteq> Hidden"
    and "isBeginHide b" and "\<forall>x\<in>set ms. \<not> isEndHide x" and "isEndHide e"
  shows "snd (run tbl transducer_init (pre @ b # ms)) = snd (run tbl transducer_init pre) \<and>
         isOutputting (fst (run tbl transducer_init (pre @ b # ms))) = Hidden \<and>
         snd (run tbl transducer_init (pre @ b # ms @ [e])) = snd (run tbl transducer_init pre) \<and>
         isOutputting (fst (run tbl transducer_init (pre @ b # ms @ [e]))) =
           isOutputting (fst (run tbl transducer_init pre))"
proof -
  obtain st out where pre: "run tbl transducer_init pre = (st, out)" by force
  let ?h = "\<lparr>isOutputting = Hidden, savedOutputting = isOutputting st\<rparr>"
  from assms(1) pre have nh: "isOutputting st \<noteq> Hidden" by simp
  with assms(2) have b: "step tbl st b = (?h, [])" by (simp add: step_def)
  have ms: "run tbl ?h ms = (?h, [])" using assms(3) by (simp add: run_hidden)
  have e: "step tbl ?h e = (?h\<lparr>isOutputting := isOutputting st\<rparr>, [])"
    using assms(4) by (simp add: step_def)
  have 1: "run tbl st (b # ms) = (?h, [])" using b ms by simp
  have 2: "run tbl st (b # ms @ [e]) = (?h\<lparr>isOutputting := isOutputting st\<rparr>, [])"
    using b ms e by (simp add: run_append)
  show ?thesis using pre 1 2 by (simp add: run_append)
qed

theorem hide_region_transparent_witness:
  "isOutputting (fst (run [] transducer_init [''int x;''])) \<noteq> Hidden \<and>
   isBeginHide ''MD_BEGIN_HIDE'' \<and> \<not> isEndHide ''secret'' \<and> isEndHide ''MD_END_HIDE'' \<and>
   snd (run [] transducer_init ([''int x;''] @ ''MD_BEGIN_HIDE'' # [''secret''] @ [''MD_END_HIDE''])) =
     [Fence_open, Code_line ''int x;''] \<and>
   isOutputting (fst (run [] transducer_init
     ([''int x;''] @ ''MD_BEGIN_HIDE'' # [''secret''] @ [''MD_END_HIDE'']))) = Code"
proof -
  have h1: "isOutputting (fst (run [] transducer_init [''int x;''])) \<noteq> Hidden"
    by code_simp
  have h2: "isBeginHide ''MD_BEGIN_HIDE''"
    by code_simp
  have h3: "\<forall>x\<in>set [''secret'']. \<not> isEndHide x"
    by code_simp
  have h4: "isEndHide ''MD_END_HIDE''"
    by code_simp
  have p1: "snd (run [] transducer_init [''int x;'']) = [Fence_open, Code_line ''int x;'']"
    by code_simp
  have p2: "isOutputting (fst (run [] transducer_init [''int x;''])) = Code"
    by code_simp
  from hide_region_transparent [OF h1 h2 h3 h4] p1 p2 h1 h2 h3 h4
  show ?thesis by simp
qed

text \<open>
  C1. The source lines \<^verbatim>\<open>int x;\<close>, \<^verbatim>\<open>MD_BEGIN_HIDE\<close> open a code fence and then end inside
  a hidden region entered from the code state: the check at the end of the stream tests
  for the code state only, so the output has one fence-open marker and no fence-close
  marker. By \<open>transduce_fence\<close> this is the only way the two counts differ: the output has
  one more fence-open marker exactly when the input ends in a hidden region entered from
  the code state, and the counts are equal otherwise; by \<open>transduce_tut_fence\<close> they are
  always equal in the tutorial's copy, which has no hide directive.
\<close>

theorem fence_unclosed_at_open_hide:
  "emdeer [] [''int x;'', ''MD_BEGIN_HIDE''] = [Fence_open, Code_line ''int x;''] \<and>
   fence_opens (emdeer [] [''int x;'', ''MD_BEGIN_HIDE'']) = 1 \<and>
   fence_closes (emdeer [] [''int x;'', ''MD_BEGIN_HIDE'']) = 0 \<and>
   fst (run [] transducer_init (extend_src [''int x;'', ''MD_BEGIN_HIDE''])) =
     \<lparr>isOutputting = Hidden, savedOutputting = Code\<rparr>"
  by code_simp

text \<open>
  C4 (as amended). A line \<^verbatim>\<open># [KEY] #\<close> without surrounding whitespace is a delimiter, and
  the key it opens is \<^verbatim>\<open>[KEY]\<close>, the brackets included: only the two \<^verbatim>\<open>#\<close> characters and
  the blanks next to them are removed. The captured lines \<^verbatim>\<open># [out] #\<close>, \<^verbatim>\<open>hello\<close>, \<^verbatim>\<open>world\<close>
  give the table that maps \<^verbatim>\<open>[out]\<close> to the two lines; a further line \<^verbatim>\<open># [out] #\<close> at the end
  opens the key again and leaves it mapped to the empty block.
\<close>

theorem delimiter_key_keeps_brackets:
  "isDelimiter (''# ['' @ KEY @ ''] #'') \<and>
   delimiterKey (''# ['' @ KEY @ ''] #'') = ''['' @ KEY @ '']'' \<and>
   blockKey (parse_line st (''# ['' @ KEY @ ''] #'')) = ''['' @ KEY @ '']'' \<and>
   parse_output [''# [out] #'', ''hello'', ''world''] = [(''[out]'', [''hello'', ''world''])] \<and>
   parse_output [''# [out] #'', ''hello'', ''world'', ''# [out] #''] = [(''[out]'', [])]"
proof -
  let ?s = "''# ['' @ KEY @ ''] #''"
  have "strip ?s = ?s" by (rule strip_id) (simp_all add: isspace_def)
  then have d: "isDelimiter ?s" by (simp add: isDelimiter_def prefix_def suffix_def)
  have "butlast (tl ?s) = '' '' @ (''['' @ KEY @ '']'') @ '' ''" by (simp add: butlast_append)
  moreover have "strip ('' '' @ (''['' @ KEY @ '']'') @ '' '') = ''['' @ KEY @ '']''"
    by (rule strip_pad) (simp_all add: isspace_def)
  ultimately have k: "delimiterKey ?s = ''['' @ KEY @ '']''" by (simp add: delimiterKey_def)
  have p: "blockKey (parse_line st ?s) = ''['' @ KEY @ '']''"
    using d k by (simp add: parse_line_def)
  have e1: "parse_output [''# [out] #'', ''hello'', ''world''] = [(''[out]'', [''hello'', ''world''])]"
    by code_simp
  have e2: "parse_output [''# [out] #'', ''hello'', ''world'', ''# [out] #''] = [(''[out]'', [])]"
    by code_simp
  from d k p e1 e2 show ?thesis by blast
qed

text \<open>
  C4 as stated fails: the line \<^verbatim>\<open># [out] #\<close> does not open the key \<^verbatim>\<open>out\<close>, and the four
  captured lines of the example leave no entry for \<^verbatim>\<open>out\<close>.
\<close>

theorem key_out_counterexample:
  "isDelimiter ''# [out] #'' \<and> delimiterKey ''# [out] #'' \<noteq> ''out'' \<and>
   map_of (parse_output [''# [out] #'', ''hello'', ''world'', ''# [out] #'']) ''out'' = None \<and>
   map_of (parse_output [''# [out] #'', ''hello'', ''world'', ''# [out] #'']) ''out''
     \<noteq> Some [''hello'', ''world'']"
  by code_simp






text \<open>
  C9. No key of the output-block table is the empty string, in either program; the key
  that a delimiter line opens contains a character that is not whitespace; hence a line
  whose stripped content is empty is written unchanged by the text path. A blank line
  that the region extender reaches with the flag set is overwritten with the text
  prefix, and the main loop in the text state writes that line as one empty line.
\<close>

theorem keys_nonempty:
  "(\<forall>k\<in>fst ` set (parse_output ls). k \<noteq> []) \<and>
   (\<forall>k\<in>fst ` set (parse_output_tut ls). k \<noteq> []) \<and>
   (isDelimiter d \<longrightarrow> (\<exists>c\<in>set (delimiterKey d). \<not> isspace c)) \<and>
   (isDelimiter_tut d \<longrightarrow> (\<exists>c\<in>set (delimiterKey_tut d). \<not> isspace c)) \<and>
   (strip s = [] \<longrightarrow>
      outputText (parse_output ls) s = [s] \<and> outputText_tut (parse_output_tut ls) s = [s]) \<and>
   (isBlank (src ! i) \<longrightarrow> extendText i True src = (src[i := textPrefix], True) \<and>
      extendText_tut i True src = (src[i := textPrefix], True)) \<and>
   step (parse_output ls) \<lparr>isOutputting = Text, savedOutputting = sv\<rparr> textPrefix =
     (\<lparr>isOutputting = Text, savedOutputting = sv\<rparr>, [Text_line []]) \<and>
   step_tut (parse_output_tut ls) Text textPrefix = (Text, [Text_line []])"
proof (intro conjI impI)
  have "[] \<notin> fst ` set (parse_output ls)"
    using map_of_Nil_key [of ls] by (simp add: map_of_eq_None_iff)
  then show "\<forall>k\<in>fst ` set (parse_output ls). k \<noteq> []" by blast
  have "[] \<notin> fst ` set (parse_output_tut ls)"
    using map_of_tut_Nil_key [of ls] by (simp add: map_of_eq_None_iff)
  then show "\<forall>k\<in>fst ` set (parse_output_tut ls). k \<noteq> []" by blast
next
  assume "isDelimiter d"
  then have "CHR ''['' \<in> set (delimiterKey d)" by (rule delimiterKey_bracket)
  moreover have "\<not> isspace CHR ''[''" by (simp add: isspace_def)
  ultimately show "\<exists>c\<in>set (delimiterKey d). \<not> isspace c" by blast
next
  assume "isDelimiter_tut d"
  then have "prefix ''@OUTPUT'' (delimiterKey_tut d)" by (rule delimiterKey_tut_prefix)
  then have "CHR ''@'' \<in> set (delimiterKey_tut d)" by (auto simp: prefix_def)
  moreover have "\<not> isspace CHR ''@''" by (simp add: isspace_def)
  ultimately show "\<exists>c\<in>set (delimiterKey_tut d). \<not> isspace c" by blast
next
  assume "strip s = []"
  then show "outputText (parse_output ls) s = [s]" "outputText_tut (parse_output_tut ls) s = [s]"
    by (simp_all add: outputText_def outputText_tut_def map_of_Nil_key map_of_tut_Nil_key)
next
  assume "isBlank (src ! i)"
  then show "extendText i True src = (src[i := textPrefix], True)"
    "extendText_tut i True src = (src[i := textPrefix], True)"
    by (simp_all add: extendText_def extendText_tut_def)
next
  have b: "\<not> isBeginHide textPrefix"
    by (simp add: isBeginHide_def strip_textPrefix)
  have s: "stripTextPrefix textPrefix textPrefix = []" "stripPrefix textPrefix textPrefix = []"
    by (simp_all add: stripTextPrefix_def stripPrefix_def)
  show "step (parse_output ls) \<lparr>isOutputting = Text, savedOutputting = sv\<rparr> textPrefix =
     (\<lparr>isOutputting = Text, savedOutputting = sv\<rparr>, [Text_line []])"
    using b s by (simp add: step_def outputText_def map_of_Nil_key)
  show "step_tut (parse_output_tut ls) Text textPrefix = (Text, [Text_line []])"
    using s by (simp add: step_tut_def isText_tut_def outputText_tut_def map_of_tut_Nil_key)
qed

theorem keys_nonempty_witness:
  "isDelimiter ''# [a] #'' \<and> isDelimiter_tut ''@OUTPUT a'' \<and> strip ''  '' = [] \<and>
   outputText (parse_output [''# [a] #'', ''x'']) ''  '' = [''  ''] \<and>
   outputText_tut (parse_output_tut [''# [a] #'', ''x'']) ''  '' = [''  ''] \<and>
   isBlank ([''/// a'', ''  ''] ! 1) \<and>
   extendText 1 True [''/// a'', ''  ''] = ([''/// a'', ''/// ''], True) \<and>
   delimiterKey ''# [a] #'' \<noteq> [] \<and> delimiterKey_tut ''@OUTPUT a'' \<noteq> []"
proof -
  have h1: "isDelimiter ''# [a] #''" and h2: "isDelimiter_tut ''@OUTPUT a''"
    and h3: "strip ''  '' = []" and h4: "isBlank ([''/// a'', ''  ''] ! 1)"
    and u: "[''/// a'', ''  ''][1 := textPrefix] = [''/// a'', ''/// '']"
    by code_simp+
  note t = keys_nonempty [of "[''# [a] #'', ''x'']" "''# [a] #''" "''  ''" "[''/// a'', ''  '']" 1 Unset]
  note t2 = keys_nonempty [of "[''# [a] #'', ''x'']" "''@OUTPUT a''" "''  ''" "[''/// a'', ''  '']" 1 Unset]
  from t h3 have c1: "outputText (parse_output [''# [a] #'', ''x'']) ''  '' = [''  ''] \<and>
      outputText_tut (parse_output_tut [''# [a] #'', ''x'']) ''  '' = [''  '']"
    by blast
  from t h4 have "extendText 1 True [''/// a'', ''  ''] = ([''/// a'', ''  ''][1 := textPrefix], True)"
    by blast
  with u have c2: "extendText 1 True [''/// a'', ''  ''] = ([''/// a'', ''/// ''], True)"
    by simp
  from t h1 have "\<exists>c\<in>set (delimiterKey ''# [a] #''). \<not> isspace c" by blast
  then have c3: "delimiterKey ''# [a] #'' \<noteq> []" by auto
  from t2 h2 have "\<exists>c\<in>set (delimiterKey_tut ''@OUTPUT a''). \<not> isspace c" by blast
  then have c4: "delimiterKey_tut ''@OUTPUT a'' \<noteq> []" by auto
  from h1 h2 h3 h4 c1 c2 c3 c4 show ?thesis by blast
qed

text \<open>
  C10 (as amended). The prefix-stripping helper returns the global line without its
  first four characters, whatever its argument. A line that is text only because its
  stripped form is \<^verbatim>\<open>///\<close>, and that starts with at least two whitespace characters, is
  written by the main loop in the text state as one line that still contains a \<^verbatim>\<open>/\<close>:
  its stripped content is the last one, two or three characters of \<^verbatim>\<open>///\<close>, which is never
  a key of the parsed table.
\<close>

theorem leading_whitespace_residue:
  assumes a: "\<forall>c\<in>set a. isspace c" and b: "\<forall>c\<in>set b. isspace c" and la: "2 \<le> length a"
  shows "stripTextPrefix g x = drop 4 g \<and>
         isText (a @ ''///'' @ b) \<and> \<not> prefix textPrefix (a @ ''///'' @ b) \<and>
         step (parse_output ls) \<lparr>isOutputting = Text, savedOutputting = sv\<rparr> (a @ ''///'' @ b) =
           (\<lparr>isOutputting = Text, savedOutputting = sv\<rparr>, [Text_line (drop 4 (a @ ''///'' @ b))]) \<and>
         strip (drop 4 (a @ ''///'' @ b)) = drop (4 - length a) ''///'' \<and>
         CHR ''/'' \<in> set (drop 4 (a @ ''///'' @ b))"
proof -
  let ?s = "a @ ''///'' @ b"
  let ?m = "drop (4 - length a) ''///''"
  have "length textPrefix = 4" by (simp add: textPrefix_def)
  then have 1: "stripTextPrefix g x = drop 4 g"
    by (simp add: stripTextPrefix_def)
  have nsp: "\<not> isspace CHR ''/''" by (simp add: isspace_def)
  have ss: "strip ?s = ''///''"
    using a b by (intro strip_pad) (simp_all add: nsp)
  then have 2: "isText ?s" by (simp add: isText_def strip_textPrefix)
  from la obtain c a' where ac: "a = c # a'" by (cases a) auto
  with a have "isspace c" by simp
  with nsp have "c \<noteq> CHR ''/''" by auto
  then have 3: "\<not> prefix textPrefix ?s" by (simp add: ac textPrefix_def)
  from la have n: "4 - length a = 0 \<or> 4 - length a = Suc 0 \<or> 4 - length a = Suc (Suc 0)"
    by arith
  then have m: "?m = ''///'' \<or> ?m = ''//'' \<or> ?m = ''/''" by auto
  have "drop (4 - length a) (''///'' @ b) = ?m @ b" using n by auto
  then have d: "drop 4 ?s = drop 4 a @ ?m @ b" by simp
  have da: "\<forall>c\<in>set (drop 4 a). isspace c" using a by (auto dest: in_set_dropD)
  have sm: "strip (drop 4 a @ ?m @ b) = ?m"
    using da b m by (intro strip_pad) (auto simp: nsp)
  have nk: "map_of (parse_output ls) ?m = None"
  proof (cases "map_of (parse_output ls) ?m")
    case (Some v)
    then have "CHR ''['' \<in> set ?m" by (rule key_has_bracket)
    with m show ?thesis by auto
  qed simp
  have nb: "\<not> isBeginHide ?s" unfolding isBeginHide_def ss by simp
  have 5: "strip (drop 4 ?s) = ?m" using sm d by simp
  have sp: "stripTextPrefix ?s ?s = drop 4 ?s"
    using \<open>length textPrefix = 4\<close> by (simp only: stripTextPrefix_def)
  have ot: "outputText (parse_output ls) (drop 4 ?s) = [drop 4 ?s]"
    by (simp only: outputText_def Let_def 5 nk option.case)
  have 4: "step (parse_output ls) \<lparr>isOutputting = Text, savedOutputting = sv\<rparr> ?s =
           (\<lparr>isOutputting = Text, savedOutputting = sv\<rparr>, [Text_line (drop 4 ?s)])"
    unfolding step_def sp ot using nb 2 by simp
  have 6: "CHR ''/'' \<in> set (drop 4 ?s)" using m d by auto
  from 1 2 3 4 5 6 show ?thesis by blast
qed

theorem leading_whitespace_residue_witness:
  "isspace CHR '' '' \<and> 2 \<le> length ''  '' \<and> isText ''  ///'' \<and> \<not> prefix textPrefix ''  ///'' \<and>
   step (parse_output []) \<lparr>isOutputting = Text, savedOutputting = Unset\<rparr> ''  ///'' =
     (\<lparr>isOutputting = Text, savedOutputting = Unset\<rparr>, [Text_line ''/''])"
proof -
  have sp: "isspace CHR '' ''" by code_simp
  then have h1: "\<forall>c\<in>set ''  ''. isspace c" by simp
  have h2: "\<forall>c\<in>set ''''. isspace c" by simp
  have h3: "2 \<le> length ''  ''" by simp
  have d: "drop 4 ''  ///'' = ''/''" by code_simp
  have e: "''  '' @ ''///'' @ '''' = ''  ///''" by simp
  note t = leading_whitespace_residue [OF h1 h2 h3, of "''abc''" "''abc''" "[]" Unset]
  from t have c1: "isText ''  ///''" unfolding e by blast
  from t have c2: "\<not> prefix textPrefix ''  ///''" unfolding e by blast
  from t have c3: "step (parse_output []) \<lparr>isOutputting = Text, savedOutputting = Unset\<rparr> ''  ///'' =
     (\<lparr>isOutputting = Text, savedOutputting = Unset\<rparr>, [Text_line ''/''])"
    unfolding e d by blast
  from sp h3 c1 c2 c3 show ?thesis by blast
qed

text \<open>
  C10 as stated fails for one leading whitespace character: the line made of one space
  and \<^verbatim>\<open>///\<close> is text only through its stripped form, and the main loop writes it as one
  empty line.
\<close>

theorem one_space_counterexample:
  "isText '' ///'' \<and> \<not> prefix textPrefix '' ///'' \<and> strip '' ///'' = ''///'' \<and>
   step [] transducer_init '' ///'' = (transducer_init, [Text_line ''''])"
  by code_simp

text \<open>
  C6. The two-pass region extension is idempotent: applied to its own output, the
  forward sweep rewrites no line and neither does the backward sweep, so the second
  application returns its input. This holds for the extension of both programs, whose
  backward sweep starts from the flag that the forward sweep left, and for the extension
  whose backward sweep is seeded with the flag true again.
\<close>

theorem region_extension_idempotent:
  "extend_src (extend_src xs) = extend_src xs \<and>
   fst (sweep [0..<length (extend_src xs)] (extend_src xs, True)) = extend_src xs \<and>
   extend_src_tut (extend_src_tut xs) = extend_src_tut xs \<and>
   fst (sweep_tut [0..<length (extend_src_tut xs)] (extend_src_tut xs, True)) = extend_src_tut xs \<and>
   extend_reseeded (extend_reseeded xs) = extend_reseeded xs \<and>
   fst (sweep [0..<length (extend_reseeded xs)] (extend_reseeded xs, True)) = extend_reseeded xs"
  by (simp only: extend_src_idempotent extend_src_tut_idempotent extend_reseeded_idempotent
      extend_src_forward extend_src_tut_forward extend_reseeded_forward simp_thms)

end
